theory Spec2Isabelle
  imports Main "HOL-Library.Word"
begin

section \<open>midiGPIO v0.2.2: data model\<close>

text \<open>
  The firmware is one Arduino sketch, \<^verbatim>\<open>midiGPIO_v0.2.2.ino\<close>. Its integers are
  \<^verbatim>\<open>uint8_t\<close>/\<^verbatim>\<open>byte\<close> (8 bits) and \<^verbatim>\<open>unsigned long\<close> (32 bits on the Teensy
  boards the sketch names), so they are words here and subtraction of time stamps wraps.
  A digital level is a \<^typ>\<open>bool\<close>: \<^verbatim>\<open>HIGH\<close> is \<open>True\<close>, \<^verbatim>\<open>LOW\<close> is \<open>False\<close>, which is
  also how the sketch stores a reading (\<^verbatim>\<open>bool reading = digitalRead(...)\<close>).
\<close>

type_synonym u8 = "8 word"
type_synonym u32 = "32 word"

definition HIGH :: bool where "HIGH = True"
definition LOW :: bool where "LOW = False"

subsection \<open>Configuration (lines 24-42)\<close>

definition inputPins :: "u8 list" where "inputPins = [2, 3, 4, 5]"
definition outputPins :: "u8 list" where "outputPins = [14, 15, 16, 17]"
definition noteNumbers :: "u8 list" where "noteNumbers = [60, 61, 62, 63]"
definition programNumbers :: "u8 list" where "programNumbers = [0, 1, 2, 3]"

definition MODE_PIN :: u8 where "MODE_PIN = 12"
definition STATE_PIN :: u8 where "STATE_PIN = 13"

definition MIDI_CHANNEL :: u8 where "MIDI_CHANNEL = 1"
definition DEBOUNCE_MS :: u32 where "DEBOUNCE_MS = 10"
definition INPUT_ACTIVE_HIGH :: bool where "INPUT_ACTIVE_HIGH = True"
definition NOTE_ON_VELOCITY :: u8 where "NOTE_ON_VELOCITY = 110"

subsection \<open>Messages and effects\<close>

text \<open>
  The GPIO port, the two MIDI transports and the diagnostic serial port are outside the
  sketch. Every call the sketch makes into them is recorded, in program order, in one
  trace, so that the order of sends across the two transports can be stated. The
  arguments of a message keep the order of the sketch's send functions: note, velocity,
  channel. \<open>SetHandleNoteOn\<close> and \<open>SetHandleNoteOff\<close> record the registration of
  \<^verbatim>\<open>handleNoteOn\<close> and \<^verbatim>\<open>handleNoteOff\<close> with a transport, \<open>MidiBegin\<close> the call
  \<^verbatim>\<open>MIDI.begin(MIDI_CHANNEL_OMNI)\<close>, \<open>SerialBegin\<close> the call \<^verbatim>\<open>Serial.begin\<close> with its baud
  rate, \<open>Delay\<close> the call \<^verbatim>\<open>delay\<close> with its milliseconds.
\<close>

datatype midi_msg =
    NoteOn u8 u8 u8
  | NoteOff u8 u8 u8
  | ProgramChange u8 u8

datatype pin_mode = INPUT | INPUT_PULLUP | OUTPUT

datatype transport = UsbMidi | SerialMidi

datatype effect =
    UsbSend midi_msg
  | SerialSend midi_msg
  | Println string
  | PinWrite u8 bool
  | PinMode u8 pin_mode
  | SetHandleNoteOn transport
  | SetHandleNoteOff transport
  | MidiBegin
  | SerialBegin int
  | Delay u32

text \<open>
  An inbound message as a transport's \<^verbatim>\<open>read()\<close> hands it to the registered handlers:
  channel, note, velocity. Only Note On and Note Off have a handler (lines 91-96); any
  other message is read and dropped.
\<close>

datatype midi_in =
    InNoteOn u8 u8 u8
  | InNoteOff u8 u8 u8
  | InOther

subsection \<open>State\<close>

text \<open>
  The three global arrays of lines 47-49, the level last driven on each pin
  (\<open>None\<close>: never written), and the trace of calls made so far.
\<close>

record state =
  lastStableState :: "bool list"
  lastReadState :: "bool list"
  lastDebounceTime :: "u32 list"
  pin_level :: "u8 \<rightharpoonup> bool"
  trace :: "effect list"

text \<open>C zero-initialises the globals before \<^verbatim>\<open>setup()\<close> runs.\<close>

definition power_on :: state where
  "power_on = \<lparr> lastStableState = replicate 4 False,
                lastReadState = replicate 4 False,
                lastDebounceTime = replicate 4 0,
                pin_level = Map.empty,
                trace = [] \<rparr>"

text \<open>
  What the environment supplies to \<^verbatim>\<open>setup()\<close>: the level of each pin, and the value
  of \<^verbatim>\<open>millis()\<close> at each of the four calls of line 72.
\<close>

record boot_inputs =
  boot_read :: "u8 \<Rightarrow> bool"
  boot_millis :: "nat \<Rightarrow> u32"

text \<open>
  What the environment supplies to one iteration of \<^verbatim>\<open>loop()\<close>: the messages that
  the serial and the USB transport hand over before their \<^verbatim>\<open>read()\<close> first returns
  false, the level of each pin (each pin is read once per iteration), and the value of
  \<^verbatim>\<open>millis()\<close> at line 124.
\<close>

record inputs =
  serial_in :: "midi_in list"
  usb_in :: "midi_in list"
  digitalRead :: "u8 \<Rightarrow> bool"
  millis :: u32

section \<open>The sketch\<close>

subsection \<open>Primitives\<close>

definition emit :: "effect \<Rightarrow> state \<Rightarrow> state" where
  "emit e s = s\<lparr> trace := trace s @ [e] \<rparr>"

definition digitalWrite :: "u8 \<Rightarrow> bool \<Rightarrow> state \<Rightarrow> state" where
  "digitalWrite pin level s =
     emit (PinWrite pin level) (s\<lparr> pin_level := (pin_level s)(pin \<mapsto> level) \<rparr>)"

definition pinMode :: "u8 \<Rightarrow> pin_mode \<Rightarrow> state \<Rightarrow> state" where
  "pinMode pin m s = emit (PinMode pin m) s"

text \<open>
  \<^verbatim>\<open>String + uint8_t\<close> appends the number in decimal; a byte has at most three digits.
\<close>

definition digit :: "nat \<Rightarrow> char" where
  "digit k = char_of (48 + k)"

definition dec :: "u8 \<Rightarrow> string" where
  "dec w =
     (let k = unat w
      in if k < 10 then [digit k]
         else if k < 100 then [digit (k div 10), digit (k mod 10)]
         else [digit (k div 100), digit (k div 10 mod 10), digit (k mod 10)])"

subsection \<open>MIDI output functions (lines 177-202)\<close>

definition sendMidiNoteOn :: "u8 \<Rightarrow> u8 \<Rightarrow> u8 \<Rightarrow> state \<Rightarrow> state" where
  "sendMidiNoteOn note velocity channel s =
     (let s1 = emit (UsbSend (NoteOn note velocity channel)) s;
          s2 = emit (SerialSend (NoteOn note velocity channel)) s1
      in emit (Println (''Send noteOn: ch='' @ dec channel @ '', note='' @ dec note
                          @ '', velocity='' @ dec velocity)) s2)"

definition sendMidiNoteOff :: "u8 \<Rightarrow> u8 \<Rightarrow> u8 \<Rightarrow> state \<Rightarrow> state" where
  "sendMidiNoteOff note velocity channel s =
     (let s1 = emit (UsbSend (NoteOff note velocity channel)) s;
          s2 = emit (SerialSend (NoteOff note velocity channel)) s1
      in emit (Println (''Send noteOff: ch='' @ dec channel @ '', note='' @ dec note
                          @ '', velocity='' @ dec velocity)) s2)"

definition sendMidiProgramChange :: "u8 \<Rightarrow> u8 \<Rightarrow> state \<Rightarrow> state" where
  "sendMidiProgramChange program channel s =
     (let s1 = emit (UsbSend (ProgramChange program channel)) s;
          s2 = emit (SerialSend (ProgramChange program channel)) s1
      in emit (Println (''Send programChange'' @ dec program @ '', channel'' @ dec channel)) s2)"

subsection \<open>MIDI message processing (lines 226-261)\<close>

text \<open>
  The two search loops, \<^verbatim>\<open>for (i = 0; i < 4; ++i) if (noteNumbers[i] == note) { ...; break; }\<close>,
  with the loop counter as argument. The \<^verbatim>\<open>break\<close> is the branch that does not recurse.
\<close>

function processNoteOff_loop :: "nat \<Rightarrow> u8 \<Rightarrow> state \<Rightarrow> state" where
  "processNoteOff_loop i note s =
     (if i < 4 then
        (if noteNumbers ! i = note then digitalWrite (outputPins ! i) HIGH s
         else processNoteOff_loop (i + 1) note s)
      else s)"
  by pat_completeness auto
termination
  by (relation "measure (\<lambda>(i, note, s). 4 - i)") auto

function processNoteOn_loop :: "nat \<Rightarrow> u8 \<Rightarrow> state \<Rightarrow> state" where
  "processNoteOn_loop i note s =
     (if i < 4 then
        (if noteNumbers ! i = note then digitalWrite (outputPins ! i) LOW s
         else processNoteOn_loop (i + 1) note s)
      else s)"
  by pat_completeness auto
termination
  by (relation "measure (\<lambda>(i, note, s). 4 - i)") auto

declare processNoteOff_loop.simps [simp del]
declare processNoteOn_loop.simps [simp del]

text \<open>
  The channel test of lines 228 and 250 guards an empty block (its \<^verbatim>\<open>return\<close> is
  commented out), so both of its branches continue with the same state.
\<close>

definition processNoteOff :: "u8 \<Rightarrow> u8 \<Rightarrow> u8 \<Rightarrow> state \<Rightarrow> state" where
  "processNoteOff channel note velocity s =
     (let s1 = (if uint channel \<noteq> uint MIDI_CHANNEL then s else s)
      in processNoteOff_loop 0 note s1)"

definition processNoteOn :: "u8 \<Rightarrow> u8 \<Rightarrow> u8 \<Rightarrow> state \<Rightarrow> state" where
  "processNoteOn channel note velocity s =
     (let s1 = (if uint channel \<noteq> uint MIDI_CHANNEL then s else s)
      in if velocity = 0 then processNoteOff channel note velocity s1
         else processNoteOn_loop 0 note s1)"

subsection \<open>MIDI input callbacks (lines 208-220)\<close>

definition handleNoteOn :: "u8 \<Rightarrow> u8 \<Rightarrow> u8 \<Rightarrow> state \<Rightarrow> state" where
  "handleNoteOn channel note velocity s =
     emit (Println (''Received noteOn: ch='' @ dec channel @ '', note='' @ dec note
                      @ '', velocity='' @ dec velocity))
          (processNoteOn channel note velocity s)"

definition handleNoteOff :: "u8 \<Rightarrow> u8 \<Rightarrow> u8 \<Rightarrow> state \<Rightarrow> state" where
  "handleNoteOff channel note velocity s =
     emit (Println (''Received noteOff: ch='' @ dec channel @ '', note='' @ dec note
                      @ '', velocity='' @ dec velocity))
          (processNoteOff channel note velocity s)"

text \<open>
  \<^verbatim>\<open>while (MIDI.read()) {}\<close> and \<^verbatim>\<open>while (usbMIDI.read()) {}\<close>: each \<^verbatim>\<open>read()\<close> takes
  one pending message and calls the handler registered for it; the loop ends when the
  queue is empty. Both transports have the same two handlers.
\<close>

fun dispatch :: "midi_in \<Rightarrow> state \<Rightarrow> state" where
  "dispatch (InNoteOn c n v) s = handleNoteOn c n v s"
| "dispatch (InNoteOff c n v) s = handleNoteOff c n v s"
| "dispatch InOther s = s"

fun drain :: "midi_in list \<Rightarrow> state \<Rightarrow> state" where
  "drain [] s = s"
| "drain (m # ms) s = drain ms (dispatch m s)"

subsection \<open>\<^verbatim>\<open>setup()\<close> (lines 60-109)\<close>

text \<open>The sketch's \<^verbatim>\<open>setup\<close> is named \<open>sketch_setup\<close> here, the plain name being reserved.\<close>

definition setup_input :: "boot_inputs \<Rightarrow> nat \<Rightarrow> state \<Rightarrow> state" where
  "setup_input b i s =
     (let s1 = pinMode (inputPins ! i) INPUT s;
          s2 = s1\<lparr> lastReadState := (lastReadState s1)[i := boot_read b (inputPins ! i)] \<rparr>;
          s3 = s2\<lparr> lastStableState := (lastStableState s2)[i := lastReadState s2 ! i] \<rparr>
      in s3\<lparr> lastDebounceTime := (lastDebounceTime s3)[i := boot_millis b i] \<rparr>)"

definition setup_output :: "nat \<Rightarrow> state \<Rightarrow> state" where
  "setup_output i s = digitalWrite (outputPins ! i) HIGH (pinMode (outputPins ! i) OUTPUT s)"

definition sketch_setup :: "boot_inputs \<Rightarrow> state" where
  "sketch_setup b =
     (let s1 = fold (setup_input b) [0..<4] power_on;
          s2 = pinMode MODE_PIN INPUT_PULLUP s1;
          s3 = fold setup_output [0..<4] s2;
          s4 = pinMode STATE_PIN OUTPUT s3;
          s5 = emit (SetHandleNoteOff UsbMidi) (emit (SetHandleNoteOn UsbMidi) s4);
          s6 = emit (SetHandleNoteOff SerialMidi) (emit (SetHandleNoteOn SerialMidi) s5);
          s7 = emit MidiBegin s6;
          s8 = emit (SerialBegin 57600) s7
      in digitalWrite STATE_PIN HIGH s8)"

subsection \<open>loop (lines 111-171)\<close>

text \<open>The body of the polling loop of lines 125-168, for channel index \<open>i\<close>.\<close>

definition poll_input :: "inputs \<Rightarrow> bool \<Rightarrow> u32 \<Rightarrow> nat \<Rightarrow> state \<Rightarrow> state" where
  "poll_input inp programMode now i s =
     (let reading = digitalRead inp (inputPins ! i);
          s1 = (if reading \<noteq> lastReadState s ! i
                then s\<lparr> lastDebounceTime := (lastDebounceTime s)[i := now],
                        lastReadState := (lastReadState s)[i := reading] \<rparr>
                else s)
      in if now - lastDebounceTime s1 ! i \<ge> DEBOUNCE_MS then
           (if lastStableState s1 ! i \<noteq> reading then
              (let s2 = s1\<lparr> lastStableState := (lastStableState s1)[i := reading] \<rparr>;
                   active = (if INPUT_ACTIVE_HIGH then reading = HIGH else reading = LOW);
                   note = noteNumbers ! i
               in if active then
                    (if programMode
                     then sendMidiProgramChange (programNumbers ! i) MIDI_CHANNEL s2
                     else sendMidiNoteOn note NOTE_ON_VELOCITY MIDI_CHANNEL s2)
                  else
                    (if \<not> programMode then sendMidiNoteOff note 0 MIDI_CHANNEL s2
                     else s2))
            else s1)
         else s1)"

text \<open>
  One iteration of \<^verbatim>\<open>loop()\<close>. The closing \<^verbatim>\<open>delay(1)\<close> changes no variable of the
  sketch; it is recorded in the trace, and the time it takes shows in the next
  iteration's \<^verbatim>\<open>millis()\<close>.
\<close>

definition loop :: "state \<Rightarrow> inputs \<Rightarrow> state" where
  "loop s inp =
     (let s1 = drain (serial_in inp) s;
          s2 = drain (usb_in inp) s1;
          programMode = (digitalRead inp MODE_PIN = HIGH);
          now = millis inp
      in emit (Delay 1) (fold (poll_input inp programMode now) [0..<4] s2))"

text \<open>The sketch after \<^verbatim>\<open>setup()\<close>, run for one iteration per element of the list.\<close>

fun run :: "state \<Rightarrow> inputs list \<Rightarrow> state" where
  "run s [] = s"
| "run s (inp # inps) = run (loop s inp) inps"

section \<open>Observations\<close>

text \<open>
  The arrays of the sketch have four elements each; \<^verbatim>\<open>setup()\<close> and \<^verbatim>\<open>loop()\<close> keep it so.
\<close>

definition wf :: "state \<Rightarrow> bool" where
  "wf s = (length (lastStableState s) = 4 \<and> length (lastReadState s) = 4
           \<and> length (lastDebounceTime s) = 4)"

text \<open>The raw level that an iteration of \<^verbatim>\<open>loop()\<close> reads for channel \<open>i\<close> (line 126).\<close>

definition reading :: "inputs \<Rightarrow> nat \<Rightarrow> bool" where
  "reading inp i = digitalRead inp (inputPins ! i)"

text \<open>A boot with every input low and the clock at zero, used in examples.\<close>

definition quiet_boot :: boot_inputs where
  "quiet_boot = \<lparr> boot_read = (\<lambda>p. False), boot_millis = (\<lambda>i. 0) \<rparr>"

text \<open>
  The guards of lines 136-137 as the polling body evaluates them for channel \<open>i\<close>, that
  is after lines 129-132 have restarted the window when the reading changed.
\<close>

definition window_start :: "inputs \<Rightarrow> u32 \<Rightarrow> nat \<Rightarrow> state \<Rightarrow> u32" where
  "window_start inp now i s =
     (if reading inp i \<noteq> lastReadState s ! i then now else lastDebounceTime s ! i)"

definition edge_confirmed :: "inputs \<Rightarrow> u32 \<Rightarrow> nat \<Rightarrow> state \<Rightarrow> bool" where
  "edge_confirmed inp now i s =
     (DEBOUNCE_MS \<le> now - window_start inp now i s \<and> lastStableState s ! i \<noteq> reading inp i)"

text \<open>
  The Input Event Mapper in the words of the specification: the message, if any, that a
  confirmed edge on channel \<open>i\<close> produces in the given mode; \<open>active\<close> tells an
  activated edge from a deactivated one.
\<close>

definition edge_message :: "bool \<Rightarrow> nat \<Rightarrow> bool \<Rightarrow> midi_msg option" where
  "edge_message programMode i active =
     (if active then
        (if programMode then Some (ProgramChange (programNumbers ! i) MIDI_CHANNEL)
         else Some (NoteOn (noteNumbers ! i) NOTE_ON_VELOCITY MIDI_CHANNEL))
      else
        (if programMode then None
         else Some (NoteOff (noteNumbers ! i) 0 MIDI_CHANNEL)))"

text \<open>The diagnostic line that goes with a sent message, and the fan-out of one send.\<close>

fun log_line :: "midi_msg \<Rightarrow> string" where
  "log_line (NoteOn n v c) =
     ''Send noteOn: ch='' @ dec c @ '', note='' @ dec n @ '', velocity='' @ dec v"
| "log_line (NoteOff n v c) =
     ''Send noteOff: ch='' @ dec c @ '', note='' @ dec n @ '', velocity='' @ dec v"
| "log_line (ProgramChange p c) =
     ''Send programChange'' @ dec p @ '', channel'' @ dec c"

definition fan_out :: "midi_msg \<Rightarrow> effect list" where
  "fan_out m = [UsbSend m, SerialSend m, Println (log_line m)]"

definition edge_effects :: "bool \<Rightarrow> nat \<Rightarrow> bool \<Rightarrow> effect list" where
  "edge_effects programMode i active =
     (case edge_message programMode i active of None \<Rightarrow> [] | Some m \<Rightarrow> fan_out m)"

text \<open>
  Runs of the sketch from power-on: \<open>state_after b inps k\<close> is the state when \<^verbatim>\<open>setup()\<close>
  and the first \<open>k\<close> iterations of \<^verbatim>\<open>loop()\<close> have run, iteration \<open>k\<close> (counted from 0)
  taking its inputs from \<open>inps ! k\<close>.
\<close>

definition state_after :: "boot_inputs \<Rightarrow> inputs list \<Rightarrow> nat \<Rightarrow> state" where
  "state_after b inps k = run (sketch_setup b) (take k inps)"

text \<open>Iteration \<open>k\<close> commits a new stable level for channel \<open>i\<close> (line 138).\<close>

definition commits :: "boot_inputs \<Rightarrow> inputs list \<Rightarrow> nat \<Rightarrow> nat \<Rightarrow> bool" where
  "commits b inps i k =
     (lastStableState (state_after b inps (Suc k)) ! i \<noteq> lastStableState (state_after b inps k) ! i)"

text \<open>
  The raw level of channel \<open>i\<close> read just before iteration \<open>k\<close>: by the previous
  iteration, or by \<^verbatim>\<open>setup()\<close> (line 70).
\<close>

definition prev_reading :: "boot_inputs \<Rightarrow> inputs list \<Rightarrow> nat \<Rightarrow> nat \<Rightarrow> bool" where
  "prev_reading b inps i k =
     (if k = 0 then boot_read b (inputPins ! i) else reading (inps ! (k - 1)) i)"

text \<open>
  The sends that concern channel \<open>i\<close>: a Note On or Note Off with its note number, a
  Program Change with its program number, on either transport.
\<close>

fun msg_about :: "nat \<Rightarrow> midi_msg \<Rightarrow> bool" where
  "msg_about i (NoteOn n v c) = (n = noteNumbers ! i)"
| "msg_about i (NoteOff n v c) = (n = noteNumbers ! i)"
| "msg_about i (ProgramChange p c) = (p = programNumbers ! i)"

fun send_about :: "nat \<Rightarrow> effect \<Rightarrow> bool" where
  "send_about i (UsbSend m) = msg_about i m"
| "send_about i (SerialSend m) = msg_about i m"
| "send_about i e = False"

text \<open>The calls that iteration \<open>k\<close> adds to the trace, and among them the sends of channel \<open>i\<close>.\<close>

definition effects_of :: "boot_inputs \<Rightarrow> inputs list \<Rightarrow> nat \<Rightarrow> effect list" where
  "effects_of b inps k =
     drop (length (trace (state_after b inps k))) (trace (state_after b inps (Suc k)))"

definition channel_sends :: "boot_inputs \<Rightarrow> inputs list \<Rightarrow> nat \<Rightarrow> nat \<Rightarrow> effect list" where
  "channel_sends b inps i k = filter (send_about i) (effects_of b inps k)"

text \<open>A stretch of the trace in which nothing is sent on either transport.\<close>

fun is_send :: "effect \<Rightarrow> bool" where
  "is_send (UsbSend m) = True"
| "is_send (SerialSend m) = True"
| "is_send e = False"

definition no_sends :: "effect list \<Rightarrow> bool" where
  "no_sends es = list_all (\<lambda>e. \<not> is_send e) es"

text \<open>
  Two input sequences used in examples, polled once per millisecond from \<open>t = 0\<close> with
  no inbound MIDI. In the first, pin 4 bounces: \<^verbatim>\<open>HIGH\<close> from 0, \<^verbatim>\<open>LOW\<close> from 3,
  \<^verbatim>\<open>HIGH\<close> from 6 on; the mode pin reads \<^verbatim>\<open>LOW\<close>. In the second every input reads
  \<^verbatim>\<open>LOW\<close> and the mode pin reads \<^verbatim>\<open>HIGH\<close>; it follows a boot at which pin 2 was
  \<^verbatim>\<open>HIGH\<close>.
\<close>

definition bounce_inputs :: "nat \<Rightarrow> inputs list" where
  "bounce_inputs n =
     map (\<lambda>k. \<lparr> serial_in = [], usb_in = [],
                digitalRead = (\<lambda>p. p = 4 \<and> (k < 3 \<or> 6 \<le> k)),
                millis = of_nat k \<rparr>) [0..<n]"

definition release_inputs :: "nat \<Rightarrow> inputs list" where
  "release_inputs n =
     map (\<lambda>k. \<lparr> serial_in = [], usb_in = [],
                digitalRead = (\<lambda>p. p = MODE_PIN),
                millis = of_nat k \<rparr>) [0..<n]"

definition held_boot :: boot_inputs where
  "held_boot = \<lparr> boot_read = (\<lambda>p. p = 2), boot_millis = (\<lambda>i. 0) \<rparr>"

text \<open>
  Two more, with the mode pin \<^verbatim>\<open>LOW\<close>: pins 2 and 3 go \<^verbatim>\<open>HIGH\<close> together at
  \<open>t = 0\<close> and stay; and, polled every 20 ms, pin 2 is \<^verbatim>\<open>HIGH\<close> for two polls and
  \<^verbatim>\<open>LOW\<close> from then on.
\<close>

definition chord_inputs :: "nat \<Rightarrow> inputs list" where
  "chord_inputs n =
     map (\<lambda>k. \<lparr> serial_in = [], usb_in = [],
                digitalRead = (\<lambda>p. p = 2 \<or> p = 3),
                millis = of_nat k \<rparr>) [0..<n]"

definition tap_inputs :: "nat \<Rightarrow> inputs list" where
  "tap_inputs n =
     map (\<lambda>k. \<lparr> serial_in = [], usb_in = [],
                digitalRead = (\<lambda>p. p = 2 \<and> k < 2),
                millis = of_nat (20 * k) \<rparr>) [0..<n]"

section \<open>Basic facts\<close>

lemma upt_4: "[0..<4] = [0, 1, 2, 3]"
  by (simp add: upt_rec)

lemma emit_simps [simp]:
  "trace (emit e s) = trace s @ [e]"
  "pin_level (emit e s) = pin_level s"
  "lastStableState (emit e s) = lastStableState s"
  "lastReadState (emit e s) = lastReadState s"
  "lastDebounceTime (emit e s) = lastDebounceTime s"
  by (simp_all add: emit_def)

lemma digitalWrite_simps [simp]:
  "trace (digitalWrite p l s) = trace s @ [PinWrite p l]"
  "pin_level (digitalWrite p l s) = (pin_level s)(p \<mapsto> l)"
  "lastStableState (digitalWrite p l s) = lastStableState s"
  "lastReadState (digitalWrite p l s) = lastReadState s"
  "lastDebounceTime (digitalWrite p l s) = lastDebounceTime s"
  by (simp_all add: digitalWrite_def)

lemma pinMode_simps [simp]:
  "trace (pinMode p m s) = trace s @ [PinMode p m]"
  "pin_level (pinMode p m s) = pin_level s"
  "lastStableState (pinMode p m s) = lastStableState s"
  "lastReadState (pinMode p m s) = lastReadState s"
  "lastDebounceTime (pinMode p m s) = lastDebounceTime s"
  by (simp_all add: pinMode_def)

subsection \<open>The search loops, unrolled over the note table\<close>

lemma processNoteOff_loop_0:
  "processNoteOff_loop 0 note s =
     (if note = 60 then digitalWrite 14 HIGH s
      else if note = 61 then digitalWrite 15 HIGH s
      else if note = 62 then digitalWrite 16 HIGH s
      else if note = 63 then digitalWrite 17 HIGH s
      else s)"
  by (auto simp add: processNoteOff_loop.simps [of 0] processNoteOff_loop.simps [of "Suc 0"]
      processNoteOff_loop.simps [of "Suc (Suc 0)"]
      processNoteOff_loop.simps [of "Suc (Suc (Suc 0))"]
      processNoteOff_loop.simps [of "Suc (Suc (Suc (Suc 0)))"]
      noteNumbers_def outputPins_def)

lemma processNoteOn_loop_0:
  "processNoteOn_loop 0 note s =
     (if note = 60 then digitalWrite 14 LOW s
      else if note = 61 then digitalWrite 15 LOW s
      else if note = 62 then digitalWrite 16 LOW s
      else if note = 63 then digitalWrite 17 LOW s
      else s)"
  by (auto simp add: processNoteOn_loop.simps [of 0] processNoteOn_loop.simps [of "Suc 0"]
      processNoteOn_loop.simps [of "Suc (Suc 0)"]
      processNoteOn_loop.simps [of "Suc (Suc (Suc 0))"]
      processNoteOn_loop.simps [of "Suc (Suc (Suc (Suc 0)))"]
      noteNumbers_def outputPins_def)

lemma processNoteOff_eq: "processNoteOff c note v s = processNoteOff_loop 0 note s"
  by (simp add: processNoteOff_def)

lemma processNoteOn_eq:
  "processNoteOn c note v s =
     (if v = 0 then processNoteOff_loop 0 note s else processNoteOn_loop 0 note s)"
  by (simp add: processNoteOn_def processNoteOff_def)

subsection \<open>The output functions\<close>

lemma send_trace [simp]:
  "trace (sendMidiNoteOn n v c s) = trace s @ fan_out (NoteOn n v c)"
  "trace (sendMidiNoteOff n v c s) = trace s @ fan_out (NoteOff n v c)"
  "trace (sendMidiProgramChange p c s) = trace s @ fan_out (ProgramChange p c)"
  by (simp_all add: sendMidiNoteOn_def sendMidiNoteOff_def sendMidiProgramChange_def fan_out_def)

lemma send_frame [simp]:
  "lastStableState (sendMidiNoteOn n v c s) = lastStableState s"
  "lastReadState (sendMidiNoteOn n v c s) = lastReadState s"
  "lastDebounceTime (sendMidiNoteOn n v c s) = lastDebounceTime s"
  "pin_level (sendMidiNoteOn n v c s) = pin_level s"
  "lastStableState (sendMidiNoteOff n v c s) = lastStableState s"
  "lastReadState (sendMidiNoteOff n v c s) = lastReadState s"
  "lastDebounceTime (sendMidiNoteOff n v c s) = lastDebounceTime s"
  "pin_level (sendMidiNoteOff n v c s) = pin_level s"
  "lastStableState (sendMidiProgramChange p c s) = lastStableState s"
  "lastReadState (sendMidiProgramChange p c s) = lastReadState s"
  "lastDebounceTime (sendMidiProgramChange p c s) = lastDebounceTime s"
  "pin_level (sendMidiProgramChange p c s) = pin_level s"
  by (simp_all add: sendMidiNoteOn_def sendMidiNoteOff_def sendMidiProgramChange_def)

subsection \<open>One pass of the polling body\<close>

lemma poll_input_lastReadState:
  "lastReadState (poll_input inp pm now i s) = (lastReadState s)[i := reading inp i]"
  by (simp add: poll_input_def reading_def Let_def)

lemma poll_input_lastDebounceTime:
  "lastDebounceTime (poll_input inp pm now i s)
     = (lastDebounceTime s)[i := window_start inp now i s]"
  by (simp add: poll_input_def reading_def window_start_def Let_def)

lemma poll_input_lastStableState:
  "i < length (lastDebounceTime s) \<Longrightarrow>
   lastStableState (poll_input inp pm now i s)
     = (if edge_confirmed inp now i s then (lastStableState s)[i := reading inp i]
        else lastStableState s)"
  by (simp add: poll_input_def reading_def window_start_def edge_confirmed_def Let_def)

lemma poll_input_pin_level: "pin_level (poll_input inp pm now i s) = pin_level s"
  by (simp add: poll_input_def Let_def)

subsection \<open>One iteration of the main loop\<close>

lemma poll_input_trace:
  "i < length (lastDebounceTime s) \<Longrightarrow>
   trace (poll_input inp pm now i s)
     = trace s @ (if edge_confirmed inp now i s then edge_effects pm i (reading inp i) else [])"
  by (simp add: poll_input_def reading_def window_start_def edge_confirmed_def Let_def
      edge_effects_def edge_message_def INPUT_ACTIVE_HIGH_def HIGH_def LOW_def)

lemma poll_input_wf: "wf (poll_input inp pm now i s) = wf s"
  by (simp add: wf_def poll_input_def Let_def)

lemma window_start_poll_other:
  "i \<noteq> j \<Longrightarrow> window_start inp now i (poll_input inp pm now j s) = window_start inp now i s"
  by (simp add: window_start_def poll_input_lastReadState poll_input_lastDebounceTime)

lemma poll_input_stable_other:
  "i \<noteq> j \<Longrightarrow> lastStableState (poll_input inp pm now j s) ! i = lastStableState s ! i"
  by (simp add: poll_input_def Let_def)

lemma edge_confirmed_poll_other:
  "i \<noteq> j \<Longrightarrow> edge_confirmed inp now i (poll_input inp pm now j s) = edge_confirmed inp now i s"
  by (simp add: edge_confirmed_def window_start_poll_other poll_input_stable_other)

lemma dispatch_frame [simp]:
  "lastStableState (dispatch m s) = lastStableState s"
  "lastReadState (dispatch m s) = lastReadState s"
  "lastDebounceTime (dispatch m s) = lastDebounceTime s"
  by (cases m; simp add: handleNoteOn_def handleNoteOff_def processNoteOn_eq processNoteOff_eq
      processNoteOff_loop_0 processNoteOn_loop_0)+

lemma drain_frame [simp]:
  "lastStableState (drain ms s) = lastStableState s"
  "lastReadState (drain ms s) = lastReadState s"
  "lastDebounceTime (drain ms s) = lastDebounceTime s"
  by (induction ms arbitrary: s; simp)+

lemma edge_confirmed_drain [simp]:
  "edge_confirmed inp now i (drain ms s) = edge_confirmed inp now i s"
  by (simp add: edge_confirmed_def window_start_def)

lemma window_start_drain [simp]:
  "window_start inp now i (drain ms s) = window_start inp now i s"
  by (simp add: window_start_def)

lemma loop_unfold:
  "loop s inp =
     (let s0 = drain (usb_in inp) (drain (serial_in inp) s);
          pm = (digitalRead inp MODE_PIN = HIGH); now = millis inp
      in emit (Delay 1) (poll_input inp pm now 3 (poll_input inp pm now 2
           (poll_input inp pm now 1 (poll_input inp pm now 0 s0)))))"
  by (simp add: loop_def upt_4 Let_def)

lemma emit_wf: "wf (emit e s) = wf s"
  by (simp add: wf_def)

lemma loop_wf: "wf s \<Longrightarrow> wf (loop s inp)"
  by (simp add: loop_unfold Let_def emit_wf poll_input_wf) (simp add: wf_def)

lemma four_cases: "i < 4 \<Longrightarrow> i = 0 \<or> i = 1 \<or> i = 2 \<or> i = (3::nat)"
  by arith

lemma loop_lastReadState:
  assumes "wf s" "i < 4"
  shows "lastReadState (loop s inp) ! i = reading inp i"
  using assms four_cases [OF assms(2)]
  by (auto simp add: loop_unfold Let_def poll_input_lastReadState wf_def)

lemma loop_lastDebounceTime:
  assumes "wf s" "i < 4"
  shows "lastDebounceTime (loop s inp) ! i = window_start inp (millis inp) i s"
  using assms four_cases [OF assms(2)]
  by (auto simp add: loop_unfold Let_def poll_input_lastDebounceTime wf_def window_start_poll_other)

lemma poll_len [simp]: "length (lastDebounceTime (poll_input inp pm now i s)) = length (lastDebounceTime s)"
  "length (lastStableState (poll_input inp pm now i s)) = length (lastStableState s)"
  by (simp_all add: poll_input_def Let_def)

lemma loop_lastStableState:
  assumes "wf s" "i < 4"
  shows "lastStableState (loop s inp) ! i =
     (if edge_confirmed inp (millis inp) i s then reading inp i else lastStableState s ! i)"
  using assms four_cases [OF assms(2)]
  by (auto simp add: loop_unfold Let_def poll_input_lastStableState wf_def edge_confirmed_poll_other)

lemma loop_trace:
  assumes "wf s"
  shows "trace (loop s inp) = trace (drain (usb_in inp) (drain (serial_in inp) s))
     @ concat (map (\<lambda>i. if edge_confirmed inp (millis inp) i s
                        then edge_effects (digitalRead inp MODE_PIN = HIGH) i (reading inp i)
                        else []) [0..<4])
     @ [Delay 1]"
  using assms
  by (simp add: loop_unfold Let_def poll_input_trace wf_def edge_confirmed_poll_other upt_4)

subsection \<open>Runs from power-on\<close>

lemma setup_unfold:
  "sketch_setup b =
     digitalWrite STATE_PIN HIGH (emit (SerialBegin 57600) (emit MidiBegin
      (emit (SetHandleNoteOff SerialMidi) (emit (SetHandleNoteOn SerialMidi)
      (emit (SetHandleNoteOff UsbMidi) (emit (SetHandleNoteOn UsbMidi)
      (pinMode STATE_PIN OUTPUT
       (setup_output 3 (setup_output 2 (setup_output 1 (setup_output 0
         (pinMode MODE_PIN INPUT_PULLUP
           (setup_input b 3 (setup_input b 2 (setup_input b 1 (setup_input b 0 power_on))))))))))))))))"
  by (simp add: sketch_setup_def upt_4 Let_def)

lemma setup_output_frame [simp]:
  "lastStableState (setup_output i s) = lastStableState s"
  "lastReadState (setup_output i s) = lastReadState s"
  "lastDebounceTime (setup_output i s) = lastDebounceTime s"
  by (simp_all add: setup_output_def)

lemma setup_input_arrays [simp]:
  "lastReadState (setup_input b i s) = (lastReadState s)[i := boot_read b (inputPins ! i)]"
  "i < length (lastReadState s) \<Longrightarrow>
     lastStableState (setup_input b i s) = (lastStableState s)[i := boot_read b (inputPins ! i)]"
  "lastDebounceTime (setup_input b i s) = (lastDebounceTime s)[i := boot_millis b i]"
  by (simp_all add: setup_input_def Let_def)

lemma setup_lastReadState:
  "lastReadState (sketch_setup b) = map (\<lambda>i. boot_read b (inputPins ! i)) [0..<4]"
  by (simp add: setup_unfold power_on_def upt_4 eval_nat_numeral)

lemma setup_lastStableState:
  "lastStableState (sketch_setup b) = map (\<lambda>i. boot_read b (inputPins ! i)) [0..<4]"
  by (simp add: setup_unfold power_on_def upt_4 eval_nat_numeral)

lemma setup_lastDebounceTime:
  "lastDebounceTime (sketch_setup b) = map (boot_millis b) [0..<4]"
  by (simp add: setup_unfold power_on_def upt_4 eval_nat_numeral)

lemma setup_wf: "wf (sketch_setup b)"
  by (simp add: wf_def setup_lastReadState setup_lastStableState setup_lastDebounceTime)

lemma run_snoc: "run s (inps @ [inp]) = loop (run s inps) inp"
  by (induction inps arbitrary: s) simp_all

lemma run_wf: "wf s \<Longrightarrow> wf (run s inps)"
  by (induction inps arbitrary: s) (simp_all add: loop_wf)

lemma state_after_0: "state_after b inps 0 = sketch_setup b"
  by (simp add: state_after_def)

lemma state_after_Suc:
  "k < length inps \<Longrightarrow> state_after b inps (Suc k) = loop (state_after b inps k) (inps ! k)"
  by (simp add: state_after_def take_Suc_conv_app_nth run_snoc)

lemma state_after_wf: "wf (state_after b inps k)"
  by (simp add: state_after_def run_wf setup_wf)

lemma commits_iff:
  assumes "i < 4" "k < length inps"
  shows "commits b inps i k
     \<longleftrightarrow> edge_confirmed (inps ! k) (millis (inps ! k)) i (state_after b inps k)"
  using assms
  by (auto simp add: commits_def state_after_Suc loop_lastStableState state_after_wf
      edge_confirmed_def)

subsection \<open>The debounce window along a run\<close>

lemma state_after_lastReadState:
  assumes "i < 4" "k \<le> length inps"
  shows "lastReadState (state_after b inps k) ! i = prev_reading b inps i k"
proof (cases k)
  case 0
  with assms show ?thesis
    using four_cases [OF assms(1)]
    by (auto simp add: state_after_0 setup_lastReadState prev_reading_def upt_4)
next
  case (Suc k')
  with assms show ?thesis
    by (simp add: state_after_Suc loop_lastReadState state_after_wf prev_reading_def)
qed

text \<open>
  While the stable level differs from the last reading, the window started at an
  iteration where the reading changed, and the reading has not changed since.
\<close>

lemma window_invariant:
  assumes "i < 4" "k \<le> length inps"
    and "lastStableState (state_after b inps k) ! i \<noteq> lastReadState (state_after b inps k) ! i"
  shows "\<exists>j<k. lastDebounceTime (state_after b inps k) ! i = millis (inps ! j)
            \<and> reading (inps ! j) i \<noteq> prev_reading b inps i j
            \<and> (\<forall>m. j \<le> m \<and> m < k \<longrightarrow>
                  reading (inps ! m) i = lastReadState (state_after b inps k) ! i)"
  using assms(2,3)
proof (induction k)
  case 0
  then show ?case
    using four_cases [OF assms(1)]
    by (auto simp add: state_after_0 setup_lastReadState setup_lastStableState upt_4)
next
  case (Suc k)
  let ?s = "state_after b inps k"
  let ?inp = "inps ! k"
  have k: "k < length inps" using Suc.prems by simp
  have wf: "wf ?s" by (rule state_after_wf)
  have rd': "lastReadState (state_after b inps (Suc k)) ! i = reading ?inp i"
    using k wf assms(1) by (simp add: state_after_Suc loop_lastReadState)
  have rd: "lastReadState ?s ! i = prev_reading b inps i k"
    using k assms(1) by (simp add: state_after_lastReadState)
  have tm': "lastDebounceTime (state_after b inps (Suc k)) ! i
               = window_start ?inp (millis ?inp) i ?s"
    using k wf assms(1) by (simp add: state_after_Suc loop_lastDebounceTime)
  have st': "lastStableState (state_after b inps (Suc k)) ! i
     = (if edge_confirmed ?inp (millis ?inp) i ?s then reading ?inp i else lastStableState ?s ! i)"
    using k wf assms(1) by (simp add: state_after_Suc loop_lastStableState)
  show ?case
  proof (cases "reading ?inp i = lastReadState ?s ! i")
    case False
    then have "lastDebounceTime (state_after b inps (Suc k)) ! i = millis (inps ! k)"
      by (simp add: tm' window_start_def)
    moreover have "reading (inps ! k) i \<noteq> prev_reading b inps i k"
      using False rd by simp
    moreover have "\<forall>m. k \<le> m \<and> m < Suc k \<longrightarrow>
        reading (inps ! m) i = lastReadState (state_after b inps (Suc k)) ! i"
    proof (intro allI impI)
      fix m assume "k \<le> m \<and> m < Suc k"
      then have "m = k" by arith
      then show "reading (inps ! m) i = lastReadState (state_after b inps (Suc k)) ! i"
        using rd' by simp
    qed
    ultimately show ?thesis by blast
  next
    case True
    from Suc.prems(2) have ne: "lastStableState ?s ! i \<noteq> lastReadState ?s ! i"
      using True by (auto simp add: st' rd' split: if_splits)
    have "k \<le> length inps" using k by simp
    from Suc.IH [OF this ne] obtain j where j: "j < k"
      "lastDebounceTime ?s ! i = millis (inps ! j)"
      "reading (inps ! j) i \<noteq> prev_reading b inps i j"
      "\<forall>m. j \<le> m \<and> m < k \<longrightarrow> reading (inps ! m) i = lastReadState ?s ! i"
      by blast
    have "lastDebounceTime (state_after b inps (Suc k)) ! i = millis (inps ! j)"
      using True j(2) by (simp add: tm' window_start_def)
    moreover have "\<forall>m. j \<le> m \<and> m < Suc k \<longrightarrow>
        reading (inps ! m) i = lastReadState (state_after b inps (Suc k)) ! i"
    proof (intro allI impI)
      fix m assume m: "j \<le> m \<and> m < Suc k"
      show "reading (inps ! m) i = lastReadState (state_after b inps (Suc k)) ! i"
      proof (cases "m = k")
        case True then show ?thesis using rd' by simp
      next
        case False
        with m have "j \<le> m \<and> m < k" by arith
        with j(4) have "reading (inps ! m) i = lastReadState ?s ! i" by blast
        with True rd' show ?thesis by simp
      qed
    qed
    ultimately show ?thesis using j(1,3) by (intro exI [of _ j]) simp
  qed
qed

lemma commit_needs_window:
  assumes "i < 4" "k < length inps" "commits b inps i k"
  shows "\<exists>j<k. reading (inps ! j) i \<noteq> prev_reading b inps i j
            \<and> (\<forall>m. j \<le> m \<and> m \<le> k \<longrightarrow> reading (inps ! m) i = reading (inps ! k) i)
            \<and> DEBOUNCE_MS \<le> millis (inps ! k) - millis (inps ! j)"
proof -
  let ?s = "state_after b inps k"
  let ?inp = "inps ! k"
  have ec: "edge_confirmed ?inp (millis ?inp) i ?s"
    using assms by (simp add: commits_iff)
  have same: "reading ?inp i = lastReadState ?s ! i"
  proof (rule ccontr)
    assume "reading ?inp i \<noteq> lastReadState ?s ! i"
    with ec show False by (simp add: edge_confirmed_def window_start_def DEBOUNCE_MS_def)
  qed
  with ec have ne: "lastStableState ?s ! i \<noteq> lastReadState ?s ! i"
    and win: "DEBOUNCE_MS \<le> millis ?inp - lastDebounceTime ?s ! i"
    by (simp_all add: edge_confirmed_def window_start_def)
  from window_invariant [OF assms(1) _ ne] assms(2) obtain j where j: "j < k"
      "lastDebounceTime ?s ! i = millis (inps ! j)"
      "reading (inps ! j) i \<noteq> prev_reading b inps i j"
      "\<forall>m. j \<le> m \<and> m < k \<longrightarrow> reading (inps ! m) i = lastReadState ?s ! i"
    by auto
  have "\<forall>m. j \<le> m \<and> m \<le> k \<longrightarrow> reading (inps ! m) i = reading (inps ! k) i"
  proof (intro allI impI)
    fix m assume m: "j \<le> m \<and> m \<le> k"
    show "reading (inps ! m) i = reading (inps ! k) i"
    proof (cases "m = k")
      case True then show ?thesis by simp
    next
      case False
      with m have "j \<le> m \<and> m < k" by simp
      with j(4) same show ?thesis by simp
    qed
  qed
  moreover have "DEBOUNCE_MS \<le> millis (inps ! k) - millis (inps ! j)"
    using win j(2) by simp
  ultimately show ?thesis using j(1,3) by blast
qed

subsection \<open>What an iteration sends\<close>

lemma no_sends_simps [simp]:
  "no_sends []"
  "no_sends (Println l # es) = no_sends es"
  "no_sends (PinWrite p v # es) = no_sends es"
  "no_sends (PinMode p m # es) = no_sends es"
  "no_sends (Delay n # es) = no_sends es"
  "no_sends (xs @ ys) = (no_sends xs \<and> no_sends ys)"
  by (simp_all add: no_sends_def)

lemma no_sends_filter: "no_sends es \<Longrightarrow> filter (send_about i) es = []"
proof (induction es)
  case Nil
  show ?case by simp
next
  case (Cons e es)
  then show ?case by (cases e) (simp_all add: no_sends_def)
qed

lemma dispatch_trace: "\<exists>es. trace (dispatch m s) = trace s @ es \<and> no_sends es"
  by (cases m) (auto simp add: handleNoteOn_def handleNoteOff_def processNoteOn_eq
      processNoteOff_eq processNoteOff_loop_0 processNoteOn_loop_0)

lemma drain_trace: "\<exists>es. trace (drain ms s) = trace s @ es \<and> no_sends es"
proof (induction ms arbitrary: s)
  case Nil
  show ?case by simp
next
  case (Cons m ms)
  obtain es1 where 1: "trace (dispatch m s) = trace s @ es1" "no_sends es1"
    using dispatch_trace by blast
  obtain es2 where 2: "trace (drain ms (dispatch m s)) = trace (dispatch m s) @ es2" "no_sends es2"
    using Cons.IH by blast
  have "trace (drain (m # ms) s) = trace s @ (es1 @ es2)" using 1 2 by simp
  moreover have "no_sends (es1 @ es2)" using 1 2 by simp
  ultimately show ?case by blast
qed

lemma send_about_other:
  assumes "i < 4" "j < 4" "i \<noteq> j"
  shows "filter (send_about i) (edge_effects pm j r) = []"
  using assms four_cases [OF assms(1)] four_cases [OF assms(2)]
  by (auto simp add: edge_effects_def edge_message_def fan_out_def noteNumbers_def
      programNumbers_def)

lemma send_about_own:
  "filter (send_about i) (edge_effects pm i r)
     = (case edge_message pm i r of None \<Rightarrow> [] | Some m \<Rightarrow> [UsbSend m, SerialSend m])"
  by (auto simp add: edge_effects_def edge_message_def fan_out_def)

lemma effects_of_eq:
  assumes "k < length inps"
  shows "\<exists>es. no_sends es \<and> effects_of b inps k = es
     @ concat (map (\<lambda>i. if edge_confirmed (inps ! k) (millis (inps ! k)) i (state_after b inps k)
                        then edge_effects (digitalRead (inps ! k) MODE_PIN = HIGH) i
                               (reading (inps ! k) i)
                        else []) [0..<4])
     @ [Delay 1]"
proof -
  let ?s = "state_after b inps k"
  let ?inp = "inps ! k"
  obtain es1 where 1: "trace (drain (serial_in ?inp) ?s) = trace ?s @ es1" "no_sends es1"
    using drain_trace by blast
  obtain es2 where 2: "trace (drain (usb_in ?inp) (drain (serial_in ?inp) ?s))
      = trace (drain (serial_in ?inp) ?s) @ es2" "no_sends es2"
    using drain_trace by blast
  have "no_sends (es1 @ es2)" using 1 2 by simp
  moreover have "effects_of b inps k = (es1 @ es2)
     @ concat (map (\<lambda>i. if edge_confirmed (inps ! k) (millis (inps ! k)) i (state_after b inps k)
                        then edge_effects (digitalRead (inps ! k) MODE_PIN = HIGH) i
                               (reading (inps ! k) i)
                        else []) [0..<4])
     @ [Delay 1]"
    using assms 1 2
    by (simp add: effects_of_def state_after_Suc loop_trace [OF state_after_wf])
  ultimately show ?thesis by blast
qed

lemma channel_sends_eq:
  assumes "i < 4" "k < length inps"
  shows "channel_sends b inps i k =
     (if commits b inps i k
      then (case edge_message (digitalRead (inps ! k) MODE_PIN = HIGH) i (reading (inps ! k) i)
            of None \<Rightarrow> [] | Some m \<Rightarrow> [UsbSend m, SerialSend m])
      else [])"
proof -
  obtain es where es: "no_sends es" "effects_of b inps k = es
     @ concat (map (\<lambda>i. if edge_confirmed (inps ! k) (millis (inps ! k)) i (state_after b inps k)
                        then edge_effects (digitalRead (inps ! k) MODE_PIN = HIGH) i
                               (reading (inps ! k) i)
                        else []) [0..<4])
     @ [Delay 1]"
    using effects_of_eq [OF assms(2)] by blast
  have "filter (send_about i) es = []" using es(1) by (rule no_sends_filter)
  then show ?thesis
    using assms four_cases [OF assms(1)]
    by (auto simp add: channel_sends_def es(2) upt_4 commits_iff send_about_other send_about_own)
qed

subsection \<open>Commits, sends and the stable level\<close>

lemma elapsed_real:
  assumes "tj \<le> tk" and "(10 :: u32) \<le> of_nat tk - of_nat tj"
  shows "10 \<le> tk - tj"
proof -
  have "(of_nat tk - of_nat tj :: u32) = of_nat (tk - tj)"
    using assms(1) by simp
  then have "(10 :: u32) \<le> of_nat (tk - tj)" using assms(2) by simp
  then have "unat (10 :: u32) \<le> unat (of_nat (tk - tj) :: u32)"
    by (simp only: word_le_nat_alt)
  then have "10 \<le> (tk - tj) mod 2 ^ 32" by (simp add: unat_of_nat)
  also have "\<dots> \<le> tk - tj" by (rule mod_less_eq_dividend)
  finally show ?thesis .
qed

lemma sends_need_commit:
  assumes "i < 4" "k < length inps" "channel_sends b inps i k \<noteq> []"
  shows "commits b inps i k"
  using assms by (simp add: channel_sends_eq split: if_splits)

lemma stable_step:
  assumes "i < 4" "k < length inps"
  shows "lastStableState (state_after b inps (Suc k)) ! i
     = (if commits b inps i k then reading (inps ! k) i
        else lastStableState (state_after b inps k) ! i)"
  using assms by (simp add: commits_iff state_after_Suc loop_lastStableState state_after_wf)

lemma stable_hold:
  assumes "i < 4" "k1 \<le> k2" "k2 \<le> length inps"
    and "\<forall>k. k1 \<le> k \<and> k < k2 \<longrightarrow> \<not> commits b inps i k"
  shows "lastStableState (state_after b inps k2) ! i = lastStableState (state_after b inps k1) ! i"
  using assms(2,3,4)
proof (induction k2)
  case 0
  then show ?case by simp
next
  case (Suc k2)
  show ?case
  proof (cases "k1 = Suc k2")
    case True
    then show ?thesis by simp
  next
    case False
    with Suc.prems have le: "k1 \<le> k2" "k2 < length inps" by simp_all
    have "\<not> commits b inps i k2" using Suc.prems(3) le by simp
    then have "lastStableState (state_after b inps (Suc k2)) ! i
              = lastStableState (state_after b inps k2) ! i"
      using assms(1) le(2) by (simp add: stable_step)
    moreover have "lastStableState (state_after b inps k2) ! i
              = lastStableState (state_after b inps k1) ! i"
      using Suc.IH le Suc.prems(3) by simp
    ultimately show ?thesis by simp
  qed
qed

lemma commit_differs:
  assumes "i < 4" "k < length inps" "commits b inps i k"
  shows "lastStableState (state_after b inps k) ! i \<noteq> reading (inps ! k) i"
  using assms by (simp add: commits_iff edge_confirmed_def)

lemma edges_alternate:
  assumes "i < 4" "k1 < k2" "k2 < length inps" "commits b inps i k1" "commits b inps i k2"
    and "\<forall>k. k1 < k \<and> k < k2 \<longrightarrow> \<not> commits b inps i k"
  shows "reading (inps ! k1) i \<noteq> reading (inps ! k2) i"
proof -
  have "lastStableState (state_after b inps (Suc k1)) ! i = reading (inps ! k1) i"
    using assms(1-4) by (simp add: stable_step)
  moreover have "lastStableState (state_after b inps k2) ! i
      = lastStableState (state_after b inps (Suc k1)) ! i"
    using assms(1,2,3,6) by (intro stable_hold) simp_all
  moreover have "lastStableState (state_after b inps k2) ! i \<noteq> reading (inps ! k2) i"
    using assms(1,3,5) by (rule commit_differs)
  ultimately show ?thesis by simp
qed

lemma first_edge:
  assumes "i < 4" "k < length inps" "commits b inps i k"
    and "\<forall>k'<k. \<not> commits b inps i k'"
  shows "reading (inps ! k) i \<noteq> boot_read b (inputPins ! i)"
proof -
  have "lastStableState (state_after b inps k) ! i = lastStableState (state_after b inps 0) ! i"
    using assms(1,2,4) by (intro stable_hold) simp_all
  moreover have "lastStableState (state_after b inps 0) ! i = boot_read b (inputPins ! i)"
    using assms(1) four_cases [OF assms(1)]
    by (auto simp add: state_after_0 setup_lastStableState upt_4)
  moreover have "lastStableState (state_after b inps k) ! i \<noteq> reading (inps ! k) i"
    using assms(1,2,3) by (rule commit_differs)
  ultimately show ?thesis by simp
qed

lemma sends_of_iteration:
  assumes "k < length inps"
  shows "filter is_send (effects_of b inps k)
     = concat (map (\<lambda>i. if commits b inps i k
                        then (case edge_message (digitalRead (inps ! k) MODE_PIN = HIGH) i
                                     (reading (inps ! k) i)
                              of None \<Rightarrow> [] | Some m \<Rightarrow> [UsbSend m, SerialSend m])
                        else []) [0..<4])"
proof -
  obtain es where es: "no_sends es" "effects_of b inps k = es
     @ concat (map (\<lambda>i. if edge_confirmed (inps ! k) (millis (inps ! k)) i (state_after b inps k)
                        then edge_effects (digitalRead (inps ! k) MODE_PIN = HIGH) i
                               (reading (inps ! k) i)
                        else []) [0..<4])
     @ [Delay 1]"
    using effects_of_eq [OF assms] by blast
  have 1: "filter is_send es = []"
    using es(1) by (simp add: no_sends_def list_all_iff filter_empty_conv)
  have 2: "filter is_send (edge_effects pm i r)
     = (case edge_message pm i r of None \<Rightarrow> [] | Some m \<Rightarrow> [UsbSend m, SerialSend m])" for pm i r
    by (simp add: edge_effects_def fan_out_def split: option.splits)
  show ?thesis
    using assms by (simp add: es(2) 1 2 upt_4 commits_iff)
qed

subsection \<open>Example runs and small arithmetic\<close>

lemma bounce_len: "length (bounce_inputs n) = n"
  by (simp add: bounce_inputs_def)

lemma release_len: "length (release_inputs n) = n"
  by (simp add: release_inputs_def)

lemma below_4: "(\<forall>j<4. P j) = (P 0 \<and> P 1 \<and> P 2 \<and> P (3::nat))"
proof
  assume "\<forall>j<4. P j" then show "P 0 \<and> P 1 \<and> P 2 \<and> P 3" by simp
next
  assume "P 0 \<and> P 1 \<and> P 2 \<and> P 3"
  then show "\<forall>j<4. P j" using four_cases by blast
qed

lemma chord_len: "length (chord_inputs n) = n"
  by (simp add: chord_inputs_def)

lemma tap_len: "length (tap_inputs n) = n"
  by (simp add: tap_inputs_def)

lemma sends_iff:
  assumes "i < 4" "k < length inps"
  shows "channel_sends b inps i k \<noteq> [] \<longleftrightarrow>
     commits b inps i k
     \<and> \<not> (digitalRead (inps ! k) MODE_PIN = HIGH \<and> reading (inps ! k) i = LOW)"
  using assms by (simp add: channel_sends_eq edge_message_def HIGH_def LOW_def)

lemma below_17:
  "k < 17 \<Longrightarrow> k = 0 \<or> k = 1 \<or> k = 2 \<or> k = 3 \<or> k = 4 \<or> k = 5 \<or> k = 6 \<or> k = 7 \<or> k = 8
     \<or> k = 9 \<or> k = 10 \<or> k = 11 \<or> k = 12 \<or> k = 13 \<or> k = 14 \<or> k = 15 \<or> k = (16::nat)"
  by arith

lemma ten_not_le_one: "\<not> (10 :: u32) \<le> 1"
  by (simp add: word_le_nat_alt)

subsection \<open>The bouncing trace on pin 4\<close>

text \<open>The state of channel 2 along the bouncing trace on pin 4.\<close>

lemma bounce_invariant:
  assumes boot: "boot_read b 4 = LOW"
    and poll: "\<forall>k<length inps. millis (inps ! k) = of_nat k
                 \<and> digitalRead (inps ! k) 4 = (if k < 3 \<or> 6 \<le> k then HIGH else LOW)"
    and "k \<le> length inps"
  shows "lastStableState (state_after b inps k) ! 2 = (17 \<le> k)
     \<and> lastReadState (state_after b inps k) ! 2 = (1 \<le> k \<and> k \<le> 3 \<or> 7 \<le> k)
     \<and> (k \<noteq> 0 \<longrightarrow> lastDebounceTime (state_after b inps k) ! 2
                      = (if k \<le> 3 then 0 else if k \<le> 6 then 3 else 6))"
  using assms(3)
proof (induction k)
  case 0
  then show ?case
    using boot
    by (simp add: state_after_0 setup_lastStableState setup_lastReadState upt_4 inputPins_def
        LOW_def)
next
  case (Suc k)
  let ?s = "state_after b inps k"
  let ?inp = "inps ! k"
  have k: "k < length inps" using Suc.prems by simp
  have wf: "wf ?s" by (rule state_after_wf)
  have now: "millis ?inp = of_nat k" using poll k by simp
  have r: "reading ?inp 2 = (k < 3 \<or> 6 \<le> k)"
    using poll k by (simp add: reading_def inputPins_def HIGH_def LOW_def)
  have st: "lastStableState ?s ! 2 = (17 \<le> k)"
    and rd: "lastReadState ?s ! 2 = (1 \<le> k \<and> k \<le> 3 \<or> 7 \<le> k)"
    and tm: "k \<noteq> 0 \<Longrightarrow> lastDebounceTime ?s ! 2 = (if k \<le> 3 then 0 else if k \<le> 6 then 3 else 6)"
    using Suc.IH k by simp_all
  have rd': "lastReadState (state_after b inps (Suc k)) ! 2 = reading ?inp 2"
    using k wf by (simp add: state_after_Suc loop_lastReadState)
  have tm': "lastDebounceTime (state_after b inps (Suc k)) ! 2
               = window_start ?inp (of_nat k) 2 ?s"
    using k wf now by (simp add: state_after_Suc loop_lastDebounceTime)
  have st': "lastStableState (state_after b inps (Suc k)) ! 2
     = (if edge_confirmed ?inp (of_nat k) 2 ?s then reading ?inp 2 else lastStableState ?s ! 2)"
    using k wf now by (simp add: state_after_Suc loop_lastStableState)
  show ?case
    unfolding rd' tm' st' edge_confirmed_def window_start_def r st rd
  proof (cases "k < 17")
    case False
    then have "17 \<le> k" by simp
    then show "(if DEBOUNCE_MS \<le> of_nat k
                    - (if (k < 3 \<or> 6 \<le> k) \<noteq> (1 \<le> k \<and> k \<le> 3 \<or> 7 \<le> k) then of_nat k
                       else lastDebounceTime ?s ! 2)
                  \<and> (17 \<le> k) \<noteq> (k < 3 \<or> 6 \<le> k)
               then k < 3 \<or> 6 \<le> k else 17 \<le> k) = (17 \<le> Suc k)
       \<and> (k < 3 \<or> 6 \<le> k) = (1 \<le> Suc k \<and> Suc k \<le> 3 \<or> 7 \<le> Suc k)
       \<and> (Suc k \<noteq> 0 \<longrightarrow>
            (if (k < 3 \<or> 6 \<le> k) \<noteq> (1 \<le> k \<and> k \<le> 3 \<or> 7 \<le> k) then of_nat k
             else lastDebounceTime ?s ! 2)
            = (if Suc k \<le> 3 then 0 else if Suc k \<le> 6 then 3 else 6))"
      using tm by simp
  next
    case True
    from below_17 [OF this] tm
    show "(if DEBOUNCE_MS \<le> of_nat k
                    - (if (k < 3 \<or> 6 \<le> k) \<noteq> (1 \<le> k \<and> k \<le> 3 \<or> 7 \<le> k) then of_nat k
                       else lastDebounceTime ?s ! 2)
                  \<and> (17 \<le> k) \<noteq> (k < 3 \<or> 6 \<le> k)
               then k < 3 \<or> 6 \<le> k else 17 \<le> k) = (17 \<le> Suc k)
       \<and> (k < 3 \<or> 6 \<le> k) = (1 \<le> Suc k \<and> Suc k \<le> 3 \<or> 7 \<le> Suc k)
       \<and> (Suc k \<noteq> 0 \<longrightarrow>
            (if (k < 3 \<or> 6 \<le> k) \<noteq> (1 \<le> k \<and> k \<le> 3 \<or> 7 \<le> k) then of_nat k
             else lastDebounceTime ?s ! 2)
            = (if Suc k \<le> 3 then 0 else if Suc k \<le> 6 then 3 else 6))"
      by (elim disjE) (simp_all add: DEBOUNCE_MS_def ten_not_le_one)
  qed
qed

lemma bounce_commits:
  assumes boot: "boot_read b 4 = LOW"
    and poll: "\<forall>k<length inps. millis (inps ! k) = of_nat k
                 \<and> digitalRead (inps ! k) 4 = (if k < 3 \<or> 6 \<le> k then HIGH else LOW)"
    and k: "k < length inps"
  shows "commits b inps 2 k \<longleftrightarrow> k = 16"
proof -
  have "lastStableState (state_after b inps k) ! 2 = (17 \<le> k)"
    using bounce_invariant [OF boot poll, of k] k by simp
  moreover have "lastStableState (state_after b inps (Suc k)) ! 2 = (17 \<le> Suc k)"
    using bounce_invariant [OF boot poll, of "Suc k"] k by simp
  ultimately show ?thesis by (auto simp add: commits_def)
qed


subsection \<open>Note lookup\<close>

lemma note_lookup:
  assumes "i < 4" "noteNumbers ! i = note"
  shows "processNoteOff_loop 0 note s = digitalWrite (outputPins ! i) HIGH s"
    and "processNoteOn_loop 0 note s = digitalWrite (outputPins ! i) LOW s"
  using assms four_cases [OF assms(1)]
  by (auto simp add: processNoteOff_loop_0 processNoteOn_loop_0 noteNumbers_def outputPins_def)

lemma note_unmatched:
  assumes "note \<notin> set noteNumbers"
  shows "processNoteOff_loop 0 note s = s" and "processNoteOn_loop 0 note s = s"
  using assms
  by (auto simp add: processNoteOff_loop_0 processNoteOn_loop_0 noteNumbers_def)

lemma quiet_boot_pin_level:
  "pin_level (sketch_setup quiet_boot)
     = [14 \<mapsto> True, 15 \<mapsto> True, 16 \<mapsto> True, 17 \<mapsto> True, 13 \<mapsto> True]"
  by (simp add: setup_unfold setup_output_def setup_input_def power_on_def outputPins_def
      STATE_PIN_def HIGH_def Let_def)

section \<open>Inbound MIDI: the Output Command Mapper\<close>

text \<open>
  Claim C4. A Note On with velocity 0 is processed exactly as a Note Off with the same
  channel and note: the two calls return the same state, trace of pin writes included,
  and the two handlers leave the same pin levels (they differ in their diagnostic line).
  For note 60 that is one write, of \<^verbatim>\<open>HIGH\<close> to pin 14.
\<close>

theorem null_velocity_note_on_is_note_off:
  "processNoteOn c n 0 s = processNoteOff c n 0 s
   \<and> pin_level (handleNoteOn c n 0 s) = pin_level (handleNoteOff c n 0 s)
   \<and> pin_level (processNoteOn c 60 0 s) 14 = Some HIGH
   \<and> trace (processNoteOn c 60 0 s) = trace s @ [PinWrite 14 HIGH]"
  by (simp add: processNoteOn_eq processNoteOff_eq processNoteOff_loop_0
      handleNoteOn_def handleNoteOff_def)

text \<open>
  Claim C9. The channel of an inbound message has no influence: for any two channel
  bytes (the sixteen MIDI channels among them) \<^verbatim>\<open>processNoteOn\<close> returns the same
  state, hence makes the same pin writes, and so does \<^verbatim>\<open>processNoteOff\<close>.
\<close>

theorem channel_is_ignored:
  "processNoteOn c1 note velocity s = processNoteOn c2 note velocity s
   \<and> processNoteOff c1 note velocity s = processNoteOff c2 note velocity s"
  by (simp add: processNoteOn_eq processNoteOff_eq)

text \<open>
  Claim C5. A Note On for note 61 with a velocity above 0 drives pin 15 \<^verbatim>\<open>LOW\<close>, the
  Note Off for note 61 that follows drives it \<^verbatim>\<open>HIGH\<close>, and after either step every
  other pin has the level it had before. The two calls make exactly these two writes.
\<close>

theorem note_61_round_trip:
  assumes "velocity \<noteq> 0"
  shows "pin_level (processNoteOn c 61 velocity s) 15 = Some LOW
     \<and> pin_level (processNoteOff c' 61 velocity' (processNoteOn c 61 velocity s)) 15 = Some HIGH
     \<and> (\<forall>p. p \<noteq> 15 \<longrightarrow>
          pin_level (processNoteOn c 61 velocity s) p = pin_level s p
          \<and> pin_level (processNoteOff c' 61 velocity' (processNoteOn c 61 velocity s)) p
              = pin_level s p)
     \<and> trace (processNoteOff c' 61 velocity' (processNoteOn c 61 velocity s))
         = trace s @ [PinWrite 15 LOW, PinWrite 15 HIGH]"
  using assms
  by (simp add: processNoteOn_eq processNoteOff_eq processNoteOff_loop_0 processNoteOn_loop_0)

theorem note_61_round_trip_witness:
  "(100 :: u8) \<noteq> 0
   \<and> pin_level (processNoteOn 1 61 100 (sketch_setup quiet_boot)) 15 = Some LOW
   \<and> pin_level (processNoteOff 1 61 0 (processNoteOn 1 61 100 (sketch_setup quiet_boot))) 15
       = Some HIGH
   \<and> pin_level (processNoteOn 1 61 100 (sketch_setup quiet_boot)) 14 = Some HIGH
   \<and> pin_level (processNoteOff 1 61 0 (processNoteOn 1 61 100 (sketch_setup quiet_boot))) 14
       = Some HIGH
   \<and> pin_level (processNoteOff 1 61 0 (processNoteOn 1 61 100 (sketch_setup quiet_boot))) 16
       = Some HIGH
   \<and> pin_level (processNoteOff 1 61 0 (processNoteOn 1 61 100 (sketch_setup quiet_boot))) 17
       = Some HIGH"
  using note_61_round_trip [of 100 1 "sketch_setup quiet_boot" 1 0]
  by (simp add: quiet_boot_pin_level HIGH_def)

text \<open>
  Claim C8. A Note On or Note Off whose note is not in the note table returns the state
  as it was: no pin is written, nothing is added to the trace, and there is no failure
  to report since the functions return no status. The handlers around them add only
  their diagnostic line. When the note is in the table, the first index that holds it
  gets the one write.
\<close>

theorem unmatched_note_is_ignored:
  "(note \<notin> set noteNumbers \<longrightarrow>
      processNoteOn c note velocity s = s \<and> processNoteOff c note velocity s = s
      \<and> (\<exists>l. handleNoteOn c note velocity s = emit (Println l) s)
      \<and> (\<exists>l. handleNoteOff c note velocity s = emit (Println l) s))
   \<and> (i < 4 \<and> noteNumbers ! i = note \<and> (\<forall>j<i. noteNumbers ! j \<noteq> note) \<longrightarrow>
        processNoteOff c note velocity s = digitalWrite (outputPins ! i) HIGH s
        \<and> processNoteOn c note velocity s
            = digitalWrite (outputPins ! i) (if velocity = 0 then HIGH else LOW) s)"
proof -
  have on: "processNoteOn c note velocity s = s" if "note \<notin> set noteNumbers"
    using that by (simp add: processNoteOn_eq note_unmatched)
  have off: "processNoteOff c note velocity s = s" if "note \<notin> set noteNumbers"
    using that by (simp add: processNoteOff_eq note_unmatched)
  have "\<exists>l. handleNoteOn c note velocity s = emit (Println l) s"
    if "note \<notin> set noteNumbers"
    unfolding handleNoteOn_def on [OF that] by blast
  moreover have "\<exists>l. handleNoteOff c note velocity s = emit (Println l) s"
    if "note \<notin> set noteNumbers"
    unfolding handleNoteOff_def off [OF that] by blast
  ultimately show ?thesis
    using on off by (simp add: processNoteOn_eq processNoteOff_eq note_lookup)
qed

theorem unmatched_note_is_ignored_witness:
  "(64 :: u8) \<notin> set noteNumbers
   \<and> processNoteOn 1 64 100 (sketch_setup quiet_boot) = sketch_setup quiet_boot
   \<and> processNoteOff 1 64 100 (sketch_setup quiet_boot) = sketch_setup quiet_boot
   \<and> (1 :: nat) < 4 \<and> noteNumbers ! 1 = 61 \<and> noteNumbers ! 0 \<noteq> 61
   \<and> processNoteOff 1 61 100 (sketch_setup quiet_boot)
       = digitalWrite 15 HIGH (sketch_setup quiet_boot)
   \<and> processNoteOn 1 61 100 (sketch_setup quiet_boot)
       = digitalWrite 15 LOW (sketch_setup quiet_boot)"
  using unmatched_note_is_ignored [of 64 1 100 "sketch_setup quiet_boot" 0]
    unmatched_note_is_ignored [of 61 1 100 "sketch_setup quiet_boot" 1]
  by (simp add: noteNumbers_def outputPins_def)

section \<open>The Debounce Engine\<close>

text \<open>
  Claim C1. In a run from power-on, whenever an iteration \<open>k\<close> commits a new stable
  level for a channel or sends a MIDI message of that channel, the raw level of the
  channel last changed at an earlier iteration \<open>j\<close>, every reading from \<open>j\<close> to \<open>k\<close>
  is the same, and the clock at \<open>k\<close> is at least \<^verbatim>\<open>DEBOUNCE_MS\<close> = 10 ms past the clock
  at \<open>j\<close>. The difference is the 32-bit one the sketch computes; for any two true times
  in milliseconds, in order, whose low 32 bits are the two clock values, at least 10 ms
  have really passed. Since \<open>j\<close> is the last change, every raw change restarts the window.
\<close>

theorem no_edge_before_window_elapsed:
  assumes "i < 4" "k < length inps"
    and "commits b inps i k \<or> channel_sends b inps i k \<noteq> []"
  shows "\<exists>j<k. reading (inps ! j) i \<noteq> prev_reading b inps i j
            \<and> (\<forall>m. j \<le> m \<and> m \<le> k \<longrightarrow> reading (inps ! m) i = reading (inps ! k) i)
            \<and> DEBOUNCE_MS \<le> millis (inps ! k) - millis (inps ! j)
            \<and> DEBOUNCE_MS = 10
            \<and> (\<forall>tj tk. tj \<le> tk \<and> millis (inps ! j) = of_nat tj \<and> millis (inps ! k) = of_nat tk
                  \<longrightarrow> 10 \<le> tk - tj)"
proof -
  have c: "commits b inps i k"
    using assms sends_need_commit by blast
  from commit_needs_window [OF assms(1,2) c] obtain j where j: "j < k"
    "reading (inps ! j) i \<noteq> prev_reading b inps i j"
    "\<forall>m. j \<le> m \<and> m \<le> k \<longrightarrow> reading (inps ! m) i = reading (inps ! k) i"
    "DEBOUNCE_MS \<le> millis (inps ! k) - millis (inps ! j)"
    by blast
  have "10 \<le> tk - tj"
    if "tj \<le> tk \<and> millis (inps ! j) = of_nat tj \<and> millis (inps ! k) = of_nat tk" for tj tk
    using that j(4) by (intro elapsed_real) (simp_all add: DEBOUNCE_MS_def)
  then have "\<forall>tj tk. tj \<le> tk \<and> millis (inps ! j) = of_nat tj \<and> millis (inps ! k) = of_nat tk
                  \<longrightarrow> 10 \<le> tk - tj"
    by blast
  moreover have "DEBOUNCE_MS = 10" by (simp add: DEBOUNCE_MS_def)
  ultimately show ?thesis using j by blast
qed

theorem no_edge_before_window_elapsed_witness:
  "(2 :: nat) < 4 \<and> 16 < length (bounce_inputs 17)
   \<and> commits quiet_boot (bounce_inputs 17) 2 16
   \<and> (\<exists>j<16. reading (bounce_inputs 17 ! j) 2 \<noteq> prev_reading quiet_boot (bounce_inputs 17) 2 j
          \<and> (\<forall>m. j \<le> m \<and> m \<le> 16 \<longrightarrow>
                reading (bounce_inputs 17 ! m) 2 = reading (bounce_inputs 17 ! 16) 2)
          \<and> DEBOUNCE_MS \<le> millis (bounce_inputs 17 ! 16) - millis (bounce_inputs 17 ! j)
          \<and> DEBOUNCE_MS = 10
          \<and> (\<forall>tj tk. tj \<le> tk \<and> millis (bounce_inputs 17 ! j) = of_nat tj
                    \<and> millis (bounce_inputs 17 ! 16) = of_nat tk
                  \<longrightarrow> 10 \<le> tk - tj))"
proof -
  have 1: "(2 :: nat) < 4" by simp
  have 2: "16 < length (bounce_inputs 17)" by (simp add: bounce_len)
  have 3: "commits quiet_boot (bounce_inputs 17) 2 16" by code_simp
  show ?thesis
    using 1 2 3 no_edge_before_window_elapsed [OF 1 2 disjI1 [OF 3]] by (intro conjI)
qed

text \<open>
  Claim C10. For every channel and every run from power-on: the stable level changes in an
  iteration exactly when the guards of lines 136-137 hold there, and then it becomes the
  current reading, otherwise it stays; a message of the channel goes out exactly at these
  commits, the deactivated edge in program mode excepted. Hence two commits with none
  between them have opposite readings, and the first commit of a run is opposite to the
  level read by \<^verbatim>\<open>setup()\<close>.
\<close>

theorem stable_level_follows_edges:
  assumes "i < 4"
  shows "(\<forall>k<length inps.
            (commits b inps i k
               \<longleftrightarrow> edge_confirmed (inps ! k) (millis (inps ! k)) i (state_after b inps k))
          \<and> lastStableState (state_after b inps (Suc k)) ! i
               = (if commits b inps i k then reading (inps ! k) i
                  else lastStableState (state_after b inps k) ! i)
          \<and> (channel_sends b inps i k \<noteq> [] \<longleftrightarrow>
               commits b inps i k
               \<and> \<not> (digitalRead (inps ! k) MODE_PIN = HIGH \<and> reading (inps ! k) i = LOW)))
     \<and> (\<forall>k1 k2. k1 < k2 \<and> k2 < length inps \<and> commits b inps i k1 \<and> commits b inps i k2
            \<and> (\<forall>k. k1 < k \<and> k < k2 \<longrightarrow> \<not> commits b inps i k)
          \<longrightarrow> reading (inps ! k1) i \<noteq> reading (inps ! k2) i)
     \<and> (\<forall>k<length inps. commits b inps i k \<and> (\<forall>k'<k. \<not> commits b inps i k')
          \<longrightarrow> reading (inps ! k) i \<noteq> boot_read b (inputPins ! i))"
proof (intro conjI allI impI)
  fix k assume "k < length inps"
  then show "commits b inps i k
     \<longleftrightarrow> edge_confirmed (inps ! k) (millis (inps ! k)) i (state_after b inps k)"
    using assms by (rule commits_iff [rotated])
next
  fix k assume "k < length inps"
  then show "lastStableState (state_after b inps (Suc k)) ! i
               = (if commits b inps i k then reading (inps ! k) i
                  else lastStableState (state_after b inps k) ! i)"
    using assms by (rule stable_step [rotated])
next
  fix k assume "k < length inps"
  then show "channel_sends b inps i k \<noteq> [] \<longleftrightarrow>
               commits b inps i k
               \<and> \<not> (digitalRead (inps ! k) MODE_PIN = HIGH \<and> reading (inps ! k) i = LOW)"
    using assms by (rule sends_iff [rotated])
next
  fix k1 k2
  assume "k1 < k2 \<and> k2 < length inps \<and> commits b inps i k1 \<and> commits b inps i k2
            \<and> (\<forall>k. k1 < k \<and> k < k2 \<longrightarrow> \<not> commits b inps i k)"
  then show "reading (inps ! k1) i \<noteq> reading (inps ! k2) i"
    using assms edges_alternate by blast
next
  fix k
  assume "k < length inps" "commits b inps i k \<and> (\<forall>k'<k. \<not> commits b inps i k')"
  then show "reading (inps ! k) i \<noteq> boot_read b (inputPins ! i)"
    using assms first_edge by blast
qed

theorem stable_level_follows_edges_witness:
  "(0 :: nat) < 4 \<and> (1 :: nat) < 3 \<and> 3 < length (tap_inputs 4)
   \<and> commits quiet_boot (tap_inputs 4) 0 1
   \<and> commits quiet_boot (tap_inputs 4) 0 3
   \<and> \<not> commits quiet_boot (tap_inputs 4) 0 2
   \<and> reading (tap_inputs 4 ! 1) 0 = HIGH
   \<and> reading (tap_inputs 4 ! 3) 0 = LOW
   \<and> reading (tap_inputs 4 ! 1) 0 \<noteq> reading (tap_inputs 4 ! 3) 0
   \<and> lastStableState (state_after quiet_boot (tap_inputs 4) 2) ! 0 = HIGH
   \<and> lastStableState (state_after quiet_boot (tap_inputs 4) 4) ! 0 = LOW
   \<and> \<not> commits quiet_boot (tap_inputs 4) 0 0
   \<and> reading (tap_inputs 4 ! 1) 0 \<noteq> boot_read quiet_boot (inputPins ! 0)"
proof -
  have 1: "(0 :: nat) < 4" by simp
  have 2: "3 < length (tap_inputs 4)" "1 < length (tap_inputs 4)"
    by (simp_all add: tap_len)
  have 3: "commits quiet_boot (tap_inputs 4) 0 1" "commits quiet_boot (tap_inputs 4) 0 3"
    by code_simp+
  have 8: "\<not> commits quiet_boot (tap_inputs 4) 0 2"
    by code_simp
  have 4: "\<forall>k. 1 < k \<and> k < 3 \<longrightarrow> \<not> commits quiet_boot (tap_inputs 4) 0 k"
  proof (intro allI impI)
    fix k :: nat assume "1 < k \<and> k < 3"
    then have "k = 2" by arith
    then show "\<not> commits quiet_boot (tap_inputs 4) 0 k" using 8 by simp
  qed
  have 5: "reading (tap_inputs 4 ! 1) 0 = HIGH" "reading (tap_inputs 4 ! 3) 0 = LOW"
    by code_simp+
  note inst = stable_level_follows_edges [OF 1, of "tap_inputs 4" quiet_boot]
  have pre: "1 < (3 :: nat) \<and> 3 < length (tap_inputs 4)
      \<and> commits quiet_boot (tap_inputs 4) 0 1 \<and> commits quiet_boot (tap_inputs 4) 0 3
      \<and> (\<forall>k. 1 < k \<and> k < 3 \<longrightarrow> \<not> commits quiet_boot (tap_inputs 4) 0 k)"
    using 2(1) 3 4 by simp
  have 6: "reading (tap_inputs 4 ! 1) 0 \<noteq> reading (tap_inputs 4 ! 3) 0"
    using inst [THEN conjunct2, THEN conjunct1, rule_format, OF pre] .
  have "lastStableState (state_after quiet_boot (tap_inputs 4) (Suc 1)) ! 0
      = (if commits quiet_boot (tap_inputs 4) 0 1 then reading (tap_inputs 4 ! 1) 0
         else lastStableState (state_after quiet_boot (tap_inputs 4) 1) ! 0)"
    using inst [THEN conjunct1, rule_format, OF 2(2), THEN conjunct2, THEN conjunct1] .
  then have "lastStableState (state_after quiet_boot (tap_inputs 4) (Suc 1)) ! 0 = HIGH"
    by (simp only: 3 5 if_True)
  moreover have "Suc 1 = 2" by simp
  ultimately have 7: "lastStableState (state_after quiet_boot (tap_inputs 4) 2) ! 0 = HIGH"
    by (simp only:)
  have "lastStableState (state_after quiet_boot (tap_inputs 4) (Suc 3)) ! 0
      = (if commits quiet_boot (tap_inputs 4) 0 3 then reading (tap_inputs 4 ! 3) 0
         else lastStableState (state_after quiet_boot (tap_inputs 4) 3) ! 0)"
    using inst [THEN conjunct1, rule_format, OF 2(1), THEN conjunct2, THEN conjunct1] .
  then have "lastStableState (state_after quiet_boot (tap_inputs 4) (Suc 3)) ! 0 = LOW"
    by (simp only: 3 5 if_True)
  moreover have "Suc 3 = 4" by simp
  ultimately have 9: "lastStableState (state_after quiet_boot (tap_inputs 4) 4) ! 0 = LOW"
    by (simp only:)
  have 10: "\<not> commits quiet_boot (tap_inputs 4) 0 0"
    by code_simp
  have first: "commits quiet_boot (tap_inputs 4) 0 1
      \<and> (\<forall>k'<1. \<not> commits quiet_boot (tap_inputs 4) 0 k')"
    using 3(1) 10 by simp
  have 11: "reading (tap_inputs 4 ! 1) 0 \<noteq> boot_read quiet_boot (inputPins ! 0)"
    using inst [THEN conjunct2, THEN conjunct2, rule_format, OF 2(2) first] .
  show ?thesis using 1 2(1) 3 5 6 7 8 9 10 11 by (intro conjI) simp_all
qed

text \<open>
  Claim C2. Let pin 4 (channel index 2) read \<^verbatim>\<open>LOW\<close> at boot and then be polled once
  per millisecond from \<open>t = 0\<close>, reading \<^verbatim>\<open>HIGH\<close> at 0, 1, 2, \<^verbatim>\<open>LOW\<close> at 3, 4, 5 and
  \<^verbatim>\<open>HIGH\<close> from 6 on; the other pins, the mode pin and the inbound MIDI are arbitrary.
  Then, however long the run, channel 2 commits at iteration 16 (\<open>t = 16\<close> ms) and at no
  other, and iteration 16 is the only one to send a message of channel 2: Note On 62
  with velocity 110 on channel 1 when the mode pin reads \<^verbatim>\<open>LOW\<close>, Program Change 2
  when it reads \<^verbatim>\<open>HIGH\<close>, once to USB and once to serial.
\<close>

theorem bounce_fires_once_at_16_ms:
  assumes "boot_read b 4 = LOW"
    and "\<forall>k<length inps. millis (inps ! k) = of_nat k
           \<and> digitalRead (inps ! k) 4 = (if k < 3 \<or> 6 \<le> k then HIGH else LOW)"
  shows "inputPins ! 2 = 4
     \<and> (\<forall>k<length inps.
          (commits b inps 2 k \<longleftrightarrow> k = 16)
          \<and> channel_sends b inps 2 k
              = (if k = 16
                 then (if digitalRead (inps ! k) MODE_PIN = HIGH
                       then [UsbSend (ProgramChange 2 1), SerialSend (ProgramChange 2 1)]
                       else [UsbSend (NoteOn 62 110 1), SerialSend (NoteOn 62 110 1)])
                 else []))"
proof (intro conjI allI impI)
  show "inputPins ! 2 = 4" by (simp add: inputPins_def)
next
  fix k assume "k < length inps"
  with assms show "commits b inps 2 k \<longleftrightarrow> k = 16" by (rule bounce_commits)
next
  fix k assume k: "k < length inps"
  have c: "commits b inps 2 k \<longleftrightarrow> k = 16" using assms k by (rule bounce_commits)
  have r: "reading (inps ! k) 2 = (k < 3 \<or> 6 \<le> k)"
    using assms(2) k by (simp add: reading_def inputPins_def HIGH_def LOW_def)
  show "channel_sends b inps 2 k
              = (if k = 16
                 then (if digitalRead (inps ! k) MODE_PIN = HIGH
                       then [UsbSend (ProgramChange 2 1), SerialSend (ProgramChange 2 1)]
                       else [UsbSend (NoteOn 62 110 1), SerialSend (NoteOn 62 110 1)])
                 else [])"
  proof (cases "k = 16")
    case True
    with r have "reading (inps ! 16) 2" by simp
    with True k c show ?thesis
      by (simp add: channel_sends_eq edge_message_def noteNumbers_def programNumbers_def
          NOTE_ON_VELOCITY_def MIDI_CHANNEL_def)
  next
    case False
    with k c show ?thesis by (simp add: channel_sends_eq)
  qed
qed

theorem bounce_fires_once_at_16_ms_witness:
  "boot_read quiet_boot 4 = LOW
   \<and> 17 < length (bounce_inputs 20)
   \<and> millis (bounce_inputs 20 ! 16) = 16
   \<and> digitalRead (bounce_inputs 20 ! 16) MODE_PIN = LOW
   \<and> commits quiet_boot (bounce_inputs 20) 2 16
   \<and> \<not> commits quiet_boot (bounce_inputs 20) 2 15
   \<and> \<not> commits quiet_boot (bounce_inputs 20) 2 17
   \<and> channel_sends quiet_boot (bounce_inputs 20) 2 16
       = [UsbSend (NoteOn 62 110 1), SerialSend (NoteOn 62 110 1)]
   \<and> channel_sends quiet_boot (bounce_inputs 20) 2 15 = []"
proof -
  have 1: "boot_read quiet_boot 4 = LOW" by (simp add: quiet_boot_def LOW_def)
  have 2: "\<forall>k<length (bounce_inputs 20). millis (bounce_inputs 20 ! k) = of_nat k
           \<and> digitalRead (bounce_inputs 20 ! k) 4 = (if k < 3 \<or> 6 \<le> k then HIGH else LOW)"
    by (simp add: bounce_inputs_def HIGH_def LOW_def)
  have 3: "17 < length (bounce_inputs 20)" "16 < length (bounce_inputs 20)"
    "15 < length (bounce_inputs 20)"
    by (simp_all add: bounce_len)
  have 4: "millis (bounce_inputs 20 ! 16) = 16"
    "digitalRead (bounce_inputs 20 ! 16) MODE_PIN = LOW"
    by (simp_all add: bounce_inputs_def MODE_PIN_def LOW_def)
  note inst = bounce_fires_once_at_16_ms [OF 1 2, THEN conjunct2, rule_format]
  have 5: "commits quiet_boot (bounce_inputs 20) 2 16"
    using inst [OF 3(2), THEN conjunct1] by simp
  have 6: "\<not> commits quiet_boot (bounce_inputs 20) 2 15"
    using inst [OF 3(3), THEN conjunct1] by simp
  have 7: "\<not> commits quiet_boot (bounce_inputs 20) 2 17"
    using inst [OF 3(1), THEN conjunct1] by simp
  have 8: "channel_sends quiet_boot (bounce_inputs 20) 2 16
       = [UsbSend (NoteOn 62 110 1), SerialSend (NoteOn 62 110 1)]"
    using inst [OF 3(2), THEN conjunct2] 4(2) by (simp add: HIGH_def LOW_def)
  have 9: "channel_sends quiet_boot (bounce_inputs 20) 2 15 = []"
    using inst [OF 3(3), THEN conjunct2] by simp
  show ?thesis using 1 3(1) 4 5 6 7 8 9 by (intro conjI)
qed

section \<open>The Input Event Mapper\<close>

text \<open>
  Claim C3. When an iteration commits an edge on channel \<open>i\<close> whose reading is
  \<^verbatim>\<open>HIGH\<close> (activated) while the mode pin reads \<^verbatim>\<open>LOW\<close>, the messages of channel \<open>i\<close>
  sent in that iteration are exactly one Note On to USB and the same Note On to serial,
  with the channel's note number, velocity \<^verbatim>\<open>NOTE_ON_VELOCITY\<close> = 110 and MIDI channel
  \<^verbatim>\<open>MIDI_CHANNEL\<close> = 1.
\<close>

theorem activated_edge_in_note_mode:
  assumes "i < 4" "k < length inps" "commits b inps i k"
    and "reading (inps ! k) i = HIGH" and "digitalRead (inps ! k) MODE_PIN = LOW"
  shows "channel_sends b inps i k
           = [UsbSend (NoteOn (noteNumbers ! i) NOTE_ON_VELOCITY MIDI_CHANNEL),
              SerialSend (NoteOn (noteNumbers ! i) NOTE_ON_VELOCITY MIDI_CHANNEL)]
         \<and> NOTE_ON_VELOCITY = 110 \<and> MIDI_CHANNEL = 1"
  using assms
  by (simp add: channel_sends_eq edge_message_def HIGH_def LOW_def NOTE_ON_VELOCITY_def
      MIDI_CHANNEL_def)

theorem activated_edge_in_note_mode_witness:
  "(2 :: nat) < 4 \<and> 16 < length (bounce_inputs 17)
   \<and> commits quiet_boot (bounce_inputs 17) 2 16
   \<and> reading (bounce_inputs 17 ! 16) 2 = HIGH
   \<and> digitalRead (bounce_inputs 17 ! 16) MODE_PIN = LOW
   \<and> channel_sends quiet_boot (bounce_inputs 17) 2 16
        = [UsbSend (NoteOn 62 110 1), SerialSend (NoteOn 62 110 1)]"
proof -
  have 1: "(2 :: nat) < 4" by simp
  have 2: "16 < length (bounce_inputs 17)" by (simp add: bounce_len)
  have 3: "commits quiet_boot (bounce_inputs 17) 2 16" by code_simp
  have 4: "reading (bounce_inputs 17 ! 16) 2 = HIGH" by code_simp
  have 5: "digitalRead (bounce_inputs 17 ! 16) MODE_PIN = LOW" by code_simp
  have 6: "noteNumbers ! 2 = 62" "NOTE_ON_VELOCITY = 110" "MIDI_CHANNEL = 1"
    by (simp_all add: noteNumbers_def NOTE_ON_VELOCITY_def MIDI_CHANNEL_def)
  from activated_edge_in_note_mode [OF 1 2 3 4 5] 1 2 3 4 5
  show ?thesis unfolding 6 by blast
qed

text \<open>
  Claim C7. When an iteration commits an edge on channel \<open>i\<close> whose reading is \<^verbatim>\<open>LOW\<close>
  (deactivated) while the mode pin reads \<^verbatim>\<open>HIGH\<close>, no message of channel \<open>i\<close> is sent in
  that iteration; and when no other channel commits in it, the iteration sends nothing
  on either transport.
\<close>

theorem deactivated_edge_in_program_mode:
  assumes "i < 4" "k < length inps" "commits b inps i k"
    and "reading (inps ! k) i = LOW" and "digitalRead (inps ! k) MODE_PIN = HIGH"
  shows "channel_sends b inps i k = []
         \<and> ((\<forall>j<4. j \<noteq> i \<longrightarrow> \<not> commits b inps j k) \<longrightarrow> no_sends (effects_of b inps k))"
proof -
  have a: "channel_sends b inps i k = []"
    using assms by (simp add: channel_sends_eq edge_message_def HIGH_def LOW_def)
  have "filter is_send (effects_of b inps k) = []"
    if only: "\<forall>j<4. j \<noteq> i \<longrightarrow> \<not> commits b inps j k"
  proof -
    have "commits b inps j k \<longrightarrow> j = i" if "j < 4" for j using that only by blast
    then have "(if commits b inps j k
                then (case edge_message (digitalRead (inps ! k) MODE_PIN = HIGH) j
                             (reading (inps ! k) j)
                      of None \<Rightarrow> [] | Some m \<Rightarrow> [UsbSend m, SerialSend m])
                else []) = []" if "j < 4" for j
      using that assms(4,5) by (auto simp add: edge_message_def HIGH_def LOW_def)
    then show ?thesis
      by (simp add: sends_of_iteration [OF assms(2)] upt_4)
  qed
  then have "(\<forall>j<4. j \<noteq> i \<longrightarrow> \<not> commits b inps j k) \<longrightarrow> no_sends (effects_of b inps k)"
    by (simp add: no_sends_def list_all_iff filter_empty_conv)
  with a show ?thesis by simp
qed

theorem deactivated_edge_in_program_mode_witness:
  "(0 :: nat) < 4 \<and> 10 < length (release_inputs 11)
   \<and> commits held_boot (release_inputs 11) 0 10
   \<and> reading (release_inputs 11 ! 10) 0 = LOW
   \<and> digitalRead (release_inputs 11 ! 10) MODE_PIN = HIGH
   \<and> channel_sends held_boot (release_inputs 11) 0 10 = []
   \<and> \<not> commits held_boot (release_inputs 11) 1 10
   \<and> \<not> commits held_boot (release_inputs 11) 2 10
   \<and> \<not> commits held_boot (release_inputs 11) 3 10
   \<and> no_sends (effects_of held_boot (release_inputs 11) 10)"
proof -
  have 1: "(0 :: nat) < 4" by simp
  have 2: "10 < length (release_inputs 11)" by (simp add: release_len)
  have 3: "commits held_boot (release_inputs 11) 0 10" by code_simp
  have 4: "reading (release_inputs 11 ! 10) 0 = LOW" by code_simp
  have 5: "digitalRead (release_inputs 11 ! 10) MODE_PIN = HIGH" by code_simp
  have 6: "\<not> commits held_boot (release_inputs 11) 1 10"
    "\<not> commits held_boot (release_inputs 11) 2 10"
    "\<not> commits held_boot (release_inputs 11) 3 10"
    by code_simp+
  have 7: "\<forall>j<4. j \<noteq> 0 \<longrightarrow> \<not> commits held_boot (release_inputs 11) j 10"
    using 6 by (simp add: below_4)
  from deactivated_edge_in_program_mode [OF 1 2 3 4 5] 7 1 2 3 4 5 6
  show ?thesis by blast
qed

section \<open>The Dispatcher\<close>

text \<open>
  Claim C6. The sends of one iteration are, in this order, those of channel 0, 1, 2, 3,
  each channel contributing the message of its edge (USB first, then serial) if it
  commits an edge in this iteration, and nothing otherwise. So every channel that
  confirms an edge is served in the same iteration, and both sends of a lower channel
  come before both sends of a higher one.
\<close>

theorem edges_of_one_iteration_in_index_order:
  assumes "k < length inps"
  shows "filter is_send (effects_of b inps k)
     = concat (map (\<lambda>i. if commits b inps i k
                        then (case edge_message (digitalRead (inps ! k) MODE_PIN = HIGH) i
                                     (reading (inps ! k) i)
                              of None \<Rightarrow> [] | Some m \<Rightarrow> [UsbSend m, SerialSend m])
                        else []) [0, 1, 2, 3])"
  using sends_of_iteration [OF assms] by (simp add: upt_4)

theorem edges_of_one_iteration_in_index_order_witness:
  "10 < length (chord_inputs 11)
   \<and> commits quiet_boot (chord_inputs 11) 0 10
   \<and> commits quiet_boot (chord_inputs 11) 1 10
   \<and> \<not> commits quiet_boot (chord_inputs 11) 2 10
   \<and> \<not> commits quiet_boot (chord_inputs 11) 3 10
   \<and> filter is_send (effects_of quiet_boot (chord_inputs 11) 10)
       = [UsbSend (NoteOn 60 110 1), SerialSend (NoteOn 60 110 1),
          UsbSend (NoteOn 61 110 1), SerialSend (NoteOn 61 110 1)]"
proof -
  have 1: "10 < length (chord_inputs 11)" by (simp add: chord_len)
  have 2: "commits quiet_boot (chord_inputs 11) 0 10"
    "commits quiet_boot (chord_inputs 11) 1 10"
    "\<not> commits quiet_boot (chord_inputs 11) 2 10"
    "\<not> commits quiet_boot (chord_inputs 11) 3 10"
    by code_simp+
  have 3: "edge_message (digitalRead (chord_inputs 11 ! 10) MODE_PIN = HIGH) 0
             (reading (chord_inputs 11 ! 10) 0) = Some (NoteOn 60 110 1)"
    "edge_message (digitalRead (chord_inputs 11 ! 10) MODE_PIN = HIGH) 1
             (reading (chord_inputs 11 ! 10) 1) = Some (NoteOn 61 110 1)"
    by code_simp+
  show ?thesis
    using edges_of_one_iteration_in_index_order [OF 1, of quiet_boot] 1 2 3 by simp
qed


end
